theory Spec2Isabelle
  imports Main
begin

section \<open>Python strings\<close>

text \<open>
  The script \<^verbatim>\<open>scripts/print_dev_summary.py\<close> works on Python \<^verbatim>\<open>str\<close> values.
  A \<^verbatim>\<open>str\<close> is modelled as a \<^typ>\<open>string\<close>, each \<^typ>\<open>char\<close> standing for the code
  point of the same number, so the model covers the code points below 256.
\<close>

definition py_isspace :: "char \<Rightarrow> bool" where
  \<comment> \<open>the characters \<^verbatim>\<open>str.strip()\<close> removes: TAB, LF, VT, FF, CR, FS, GS, RS, US, SPACE,
      NEL (0x85) and NBSP (0xA0)\<close>
  "py_isspace c =
     (let n = (of_char c :: nat)
      in (9 \<le> n \<and> n \<le> 13) \<or> (28 \<le> n \<and> n \<le> 32) \<or> n = 133 \<or> n = 160)"

definition lstrip :: "string \<Rightarrow> string" where
  "lstrip s = dropWhile py_isspace s"

definition rstrip :: "string \<Rightarrow> string" where
  "rstrip s = rev (dropWhile py_isspace (rev s))"

definition strip :: "string \<Rightarrow> string" where
  \<comment> \<open>\<^verbatim>\<open>s.strip()\<close>\<close>
  "strip s = rstrip (lstrip s)"

definition lstrip_space :: "string \<Rightarrow> string" where
  \<comment> \<open>\<^verbatim>\<open>s.lstrip(" ")\<close>: only the space character is removed\<close>
  "lstrip_space s = dropWhile (\<lambda>c. c = CHR '' '') s"

definition startswith :: "string \<Rightarrow> char \<Rightarrow> bool" where
  \<comment> \<open>\<^verbatim>\<open>s.startswith(c)\<close> for a one-character \<^verbatim>\<open>c\<close>\<close>
  "startswith s c = (case s of [] \<Rightarrow> False | x # _ \<Rightarrow> x = c)"

definition endswith :: "string \<Rightarrow> char \<Rightarrow> bool" where
  \<comment> \<open>\<^verbatim>\<open>s.endswith(c)\<close> for a one-character \<^verbatim>\<open>c\<close>\<close>
  "endswith s c = (s \<noteq> [] \<and> last s = c)"

definition partition :: "char \<Rightarrow> string \<Rightarrow> string \<times> string \<times> string" where
  \<comment> \<open>\<^verbatim>\<open>s.partition(sep)\<close> for a one-character \<^verbatim>\<open>sep\<close>: the part before the first
      occurrence, the separator, the part after it; \<^verbatim>\<open>(s, "", "")\<close> when there is none\<close>
  "partition sep s =
     (case dropWhile (\<lambda>c. c \<noteq> sep) s of
        [] \<Rightarrow> (s, [], [])
      | c # rest \<Rightarrow> (takeWhile (\<lambda>c. c \<noteq> sep) s, [c], rest))"

definition slice_1_m1 :: "string \<Rightarrow> string" where
  \<comment> \<open>\<^verbatim>\<open>s[1:-1]\<close>: the characters from index 1 up to, not including, the last one\<close>
  "slice_1_m1 s = drop 1 (take (length s - 1) s)"

definition dquote :: char where
  "dquote = CHR 0x22"

definition squote :: char where
  "squote = CHR 0x27"

section \<open>Values, dictionaries and the object store\<close>

text \<open>
  The exceptions: \<^verbatim>\<open>IndexError\<close> for \<^verbatim>\<open>stack[-1]\<close> on an empty list,
  \<^verbatim>\<open>FileNotFoundError\<close> for a missing file, \<^verbatim>\<open>OSError\<close> for any other failure
  of the read, \<^verbatim>\<open>RecursionError\<close> for a \<^verbatim>\<open>repr\<close> nested too deep.
  \<^verbatim>\<open>NotATree\<close> is not a Python exception: it stands for a root whose
  objects could not be read as a finite tree.
\<close>

datatype error = IndexError | FileNotFoundError | OSError | RecursionError | NotATree

text \<open>
  \<^verbatim>\<open>YamlValue = Union[str, Dict[str, "YamlValue"], List["YamlValue"]]\<close>, read as a value.
  A Python \<^verbatim>\<open>dict\<close> keeps its keys in insertion order: it is an association list.
\<close>

datatype YamlValue = YStr string | YDict "(string \<times> YamlValue) list" | YList "YamlValue list"

text \<open>
  While parsing, dictionaries are objects that are shared between the frame stack and
  the dictionary that holds them, and they are mutated in place. So they live in a
  store, a list of dictionaries indexed by address, and a dictionary entry holds a
  string, the address of a dictionary, or the list \<^verbatim>\<open>[]\<close> (which nothing ever mutates).
\<close>

datatype pyval = PStr string | PDict nat | PList

type_synonym pydict = "(string \<times> pyval) list"

fun dict_set :: "string \<Rightarrow> 'v \<Rightarrow> (string \<times> 'v) list \<Rightarrow> (string \<times> 'v) list" where
  \<comment> \<open>\<^verbatim>\<open>d[k] = v\<close>: an existing key keeps its place and takes the new value, a new key
      goes to the end\<close>
  "dict_set k v [] = [(k, v)]"
| "dict_set k v ((k', v') # d) =
     (if k' = k then (k', v) # d else (k', v') # dict_set k v d)"

definition dict_get :: "(string \<times> 'v) list \<Rightarrow> string \<Rightarrow> 'v option" where
  \<comment> \<open>\<^verbatim>\<open>d.get(k)\<close>, with \<^verbatim>\<open>None\<close> as \<^term>\<open>None\<close>\<close>
  "dict_get d k = map_of d k"

record pstate =
  store :: "pydict list"
  stack :: "(int \<times> nat) list"

text \<open>The stack is a Python list: the top frame is its last element.\<close>

definition store_set :: "pydict list \<Rightarrow> nat \<Rightarrow> string \<Rightarrow> pyval \<Rightarrow> pydict list" where
  \<comment> \<open>\<^verbatim>\<open>parent[key] = v\<close> for the dictionary at address \<^verbatim>\<open>parent\<close>\<close>
  "store_set st parent key v = st[parent := dict_set key v (st ! parent)]"

section \<open>The parser\<close>

function pop_frames :: "int \<Rightarrow> (int \<times> nat) list \<Rightarrow> (int \<times> nat) list" where
  \<comment> \<open>\<^verbatim>\<open>while stack and indent <= stack[-1][0]: stack.pop()\<close>\<close>
  "pop_frames indent stk =
     (if stk \<noteq> [] \<and> indent \<le> fst (last stk) then pop_frames indent (butlast stk) else stk)"
  by pat_completeness auto
termination
  by (relation "measure (\<lambda>(indent, stk). length stk)") auto

declare pop_frames.simps [simp del]

definition line_skipped :: "string \<Rightarrow> bool" where
  \<comment> \<open>\<^verbatim>\<open>not stripped or stripped.startswith("#")\<close>\<close>
  "line_skipped raw_line = (strip raw_line = [] \<or> startswith (strip raw_line) (CHR ''#''))"

definition line_indent :: "string \<Rightarrow> int" where
  \<comment> \<open>\<^verbatim>\<open>len(raw_line) - len(raw_line.lstrip(" "))\<close>\<close>
  "line_indent raw_line = int (length raw_line) - int (length (lstrip_space raw_line))"

definition line_key :: "string \<Rightarrow> string" where
  "line_key raw_line = fst (partition (CHR '':'') (strip raw_line))"

definition line_value :: "string \<Rightarrow> string" where
  \<comment> \<open>the third component of the partition, stripped\<close>
  "line_value raw_line = strip (snd (snd (partition (CHR '':'') (strip raw_line))))"

definition strip_quotes :: "string \<Rightarrow> string" where
  \<comment> \<open>lines 43 to 46 of the script\<close>
  "strip_quotes v =
     (if (startswith v dquote \<and> endswith v dquote) \<or> (startswith v squote \<and> endswith v squote)
      then slice_1_m1 v else v)"

definition parse_line :: "string \<Rightarrow> pstate \<Rightarrow> error + pstate" where
  \<comment> \<open>one iteration of the \<^verbatim>\<open>for\<close> loop of \<^verbatim>\<open>parse_yaml\<close>\<close>
  "parse_line raw_line s =
     (if line_skipped raw_line then Inr s
      else
        let indent = line_indent raw_line;
            key = line_key raw_line;
            val = line_value raw_line;
            stk = pop_frames indent (stack s)
        in if stk = [] then Inl IndexError
           else
             let parent = snd (last stk) in
             if val = [] then
               let node = length (store s);
                   st = store s @ [[]]
               in Inr \<lparr>store = store_set st parent key (PDict node),
                       stack = stk @ [(indent, node)]\<rparr>
             else if val = ''[]'' then
               Inr \<lparr>store = store_set (store s) parent key PList, stack = stk\<rparr>
             else if val = ''{}'' then
               let node = length (store s);
                   st = store s @ [[]]
               in Inr \<lparr>store = store_set st parent key (PDict node), stack = stk\<rparr>
             else
               Inr \<lparr>store = store_set (store s) parent key (PStr (strip_quotes val)),
                    stack = stk\<rparr>)"

fun parse_lines :: "string list \<Rightarrow> pstate \<Rightarrow> error + pstate" where
  \<comment> \<open>the \<^verbatim>\<open>for\<close> loop; an exception ends it\<close>
  "parse_lines [] s = Inr s"
| "parse_lines (l # ls) s =
     (case parse_line l s of Inl e \<Rightarrow> Inl e | Inr s' \<Rightarrow> parse_lines ls s')"

definition initial :: pstate where
  \<comment> \<open>\<^verbatim>\<open>root = {}\<close>, at address 0, and \<^verbatim>\<open>stack = [(-1, root)]\<close>\<close>
  "initial = \<lparr>store = [[]], stack = [(- 1, 0)]\<rparr>"

text \<open>
  The value of the object graph under an entry, read with a bound on the nesting
  depth; \<^term>\<open>None\<close> when the bound is reached or an address is not in the store.
\<close>

fun read_value :: "nat \<Rightarrow> pydict list \<Rightarrow> pyval \<Rightarrow> YamlValue option"
  and read_dict :: "nat \<Rightarrow> pydict list \<Rightarrow> pydict \<Rightarrow> (string \<times> YamlValue) list option" where
  "read_value n st (PStr s) = Some (YStr s)"
| "read_value n st PList = Some (YList [])"
| "read_value 0 st (PDict a) = None"
| "read_value (Suc n) st (PDict a) =
     (if a < length st then map_option YDict (read_dict n st (st ! a)) else None)"
| "read_dict n st [] = Some []"
| "read_dict n st ((k, v) # d) =
     (case read_value n st v of
        None \<Rightarrow> None
      | Some t \<Rightarrow> (case read_dict n st d of None \<Rightarrow> None | Some ts \<Rightarrow> Some ((k, t) # ts)))"

definition parse_yaml :: "string list \<Rightarrow> error + (string \<times> YamlValue) list" where
  \<comment> \<open>\<^verbatim>\<open>parse_yaml(lines)\<close>: the loop, then \<^verbatim>\<open>return root\<close>\<close>
  "parse_yaml lines =
     (case parse_lines lines initial of
        Inl e \<Rightarrow> Inl e
      | Inr s \<Rightarrow>
          (case read_dict (length (store s)) (store s) (store s ! 0) of
             None \<Rightarrow> Inl NotATree
           | Some d \<Rightarrow> Inr d))"

section \<open>The reporter\<close>

text \<open>
  \<^verbatim>\<open>print(f"... {v} ...")\<close> writes \<^verbatim>\<open>str(v)\<close>: a \<^verbatim>\<open>str\<close> as it is, a \<^verbatim>\<open>dict\<close> or a
  \<^verbatim>\<open>list\<close> as its \<^verbatim>\<open>repr\<close>, in which every string is quoted and escaped.
\<close>

definition hex_digit :: "nat \<Rightarrow> char" where
  "hex_digit n = ''0123456789abcdef'' ! (n mod 16)"

definition repr_char :: "char \<Rightarrow> char \<Rightarrow> string" where
  \<comment> \<open>one character of \<^verbatim>\<open>repr(s)\<close>, inside the quote character \<^verbatim>\<open>q\<close>\<close>
  "repr_char q c =
     (let n = (of_char c :: nat) in
      if c = q \<or> c = CHR 0x5C then [CHR 0x5C, c]
      else if n = 9 then [CHR 0x5C, CHR ''t'']
      else if n = 10 then [CHR 0x5C, CHR ''n'']
      else if n = 13 then [CHR 0x5C, CHR ''r'']
      else if n < 32 \<or> n = 127 \<or> (128 \<le> n \<and> n \<le> 160) \<or> n = 173
        then [CHR 0x5C, CHR ''x'', hex_digit (n div 16), hex_digit n]
      else [c])"

definition repr_str :: "string \<Rightarrow> string" where
  \<comment> \<open>\<^verbatim>\<open>repr(s)\<close>: single quotes, unless the string has a single quote and no double quote\<close>
  "repr_str s =
     (let q = (if squote \<in> set s \<and> dquote \<notin> set s then dquote else squote)
      in [q] @ concat (map (repr_char q) s) @ [q])"

fun join :: "string \<Rightarrow> string list \<Rightarrow> string" where
  \<comment> \<open>\<^verbatim>\<open>sep.join(xs)\<close>\<close>
  "join sep [] = []"
| "join sep [x] = x"
| "join sep (x # y # xs) = x @ sep @ join sep (y # xs)"

text \<open>
  \<^verbatim>\<open>repr\<close> of a container calls \<^verbatim>\<open>repr\<close> on its keys and values, and the interpreter
  bounds the depth of nested calls: a call made when none is left raises
  \<^verbatim>\<open>RecursionError\<close>. The script does not set that bound, so it is a parameter: the
  first argument is the number of nested \<^verbatim>\<open>repr\<close> calls still allowed.
\<close>

fun py_repr :: "nat \<Rightarrow> YamlValue \<Rightarrow> error + string"
  and repr_items :: "nat \<Rightarrow> (string \<times> YamlValue) list \<Rightarrow> error + string list"
  and repr_elems :: "nat \<Rightarrow> YamlValue list \<Rightarrow> error + string list" where
  "py_repr 0 v = Inl RecursionError"
| "py_repr (Suc n) (YStr s) = Inr (repr_str s)"
| "py_repr (Suc n) (YDict d) =
     (case repr_items n d of
        Inl e \<Rightarrow> Inl e
      | Inr parts \<Rightarrow> Inr (''{'' @ join '', '' parts @ ''}''))"
| "py_repr (Suc n) (YList xs) =
     (case repr_elems n xs of
        Inl e \<Rightarrow> Inl e
      | Inr parts \<Rightarrow> Inr (''['' @ join '', '' parts @ '']''))"
| "repr_items n [] = Inr []"
| "repr_items n ((k, v) # d) =
     (case py_repr n (YStr k) of
        Inl e \<Rightarrow> Inl e
      | Inr rk \<Rightarrow>
          (case py_repr n v of
             Inl e \<Rightarrow> Inl e
           | Inr rv \<Rightarrow>
               (case repr_items n d of
                  Inl e \<Rightarrow> Inl e
                | Inr parts \<Rightarrow> Inr ((rk @ '': '' @ rv) # parts))))"
| "repr_elems n [] = Inr []"
| "repr_elems n (x # xs) =
     (case py_repr n x of
        Inl e \<Rightarrow> Inl e
      | Inr rx \<Rightarrow>
          (case repr_elems n xs of Inl e \<Rightarrow> Inl e | Inr parts \<Rightarrow> Inr (rx # parts)))"

definition py_str :: "nat \<Rightarrow> YamlValue option \<Rightarrow> error + string" where
  \<comment> \<open>\<^verbatim>\<open>str(v)\<close>, as an f-string field writes it: a \<^verbatim>\<open>str\<close> is written as it is, with no
      call of \<^verbatim>\<open>repr\<close>\<close>
  "py_str limit v =
     (case v of
        None \<Rightarrow> Inr ''None''
      | Some (YStr s) \<Rightarrow> Inr s
      | Some t \<Rightarrow> py_repr limit t)"

fun fstring :: "(error + string) list \<Rightarrow> error + string" where
  \<comment> \<open>an f-string: its pieces are evaluated from left to right and joined; the first
      exception ends it\<close>
  "fstring [] = Inr []"
| "fstring (p # ps) =
     (case p of
        Inl e \<Rightarrow> Inl e
      | Inr s \<Rightarrow> (case fstring ps of Inl e \<Rightarrow> Inl e | Inr t \<Rightarrow> Inr (s @ t)))"

fun run_prints :: "(error + string) option list \<Rightarrow> string list \<times> error option" where
  \<comment> \<open>a sequence of guarded \<^verbatim>\<open>print\<close> statements: \<^term>\<open>None\<close> for a guard that is false,
      otherwise the line to print. The result is the lines printed and the exception
      that ended the sequence, if any.\<close>
  "run_prints [] = ([], None)"
| "run_prints (None # rest) = run_prints rest"
| "run_prints (Some (Inl e) # rest) = ([], Some e)"
| "run_prints (Some (Inr s) # rest) = (case run_prints rest of (out, r) \<Rightarrow> (s # out, r))"

definition truthy :: "YamlValue option \<Rightarrow> bool" where
  \<comment> \<open>\<^verbatim>\<open>if v:\<close>: \<^verbatim>\<open>None\<close>, the empty string and the empty containers are false\<close>
  "truthy v =
     (case v of
        None \<Rightarrow> False
      | Some (YStr s) \<Rightarrow> s \<noteq> []
      | Some (YDict d) \<Rightarrow> d \<noteq> []
      | Some (YList xs) \<Rightarrow> xs \<noteq> [])"

definition get_or_empty :: "(string \<times> YamlValue) list \<Rightarrow> string \<Rightarrow> YamlValue" where
  \<comment> \<open>\<^verbatim>\<open>d.get(k, {})\<close>\<close>
  "get_or_empty d k = (case dict_get d k of None \<Rightarrow> YDict [] | Some v \<Rightarrow> v)"

definition get_if_dict :: "YamlValue \<Rightarrow> string \<Rightarrow> YamlValue option" where
  \<comment> \<open>\<^verbatim>\<open>x.get(k) if isinstance(x, dict) else None\<close>\<close>
  "get_if_dict x k = (case x of YDict d \<Rightarrow> dict_get d k | _ \<Rightarrow> None)"

definition nested_dict :: "(string \<times> YamlValue) list \<Rightarrow> string \<Rightarrow> string \<Rightarrow> YamlValue" where
  \<comment> \<open>lines 68 to 73 and 76 to 81: the dictionary at \<^verbatim>\<open>config[outer][inner]\<close>, or \<^verbatim>\<open>{}\<close>
      when either lookup does not give a dictionary\<close>
  "nested_dict config outer inner =
     (case get_or_empty config outer of
        YDict o_root \<Rightarrow>
          (case get_or_empty o_root inner of YDict d \<Rightarrow> YDict d | _ \<Rightarrow> YDict [])
      | _ \<Rightarrow> YDict [])"

definition report :: "nat \<Rightarrow> (string \<times> YamlValue) list \<Rightarrow> string list \<times> error option" where
  \<comment> \<open>lines 65 to 103 of \<^verbatim>\<open>main\<close>: the lines printed, in order, and the exception raised
      while formatting a line, if any\<close>
  "report limit config =
     (let ingress = get_or_empty config ''ingress'';
          host = get_if_dict ingress ''host'';
          secrets = nested_dict config ''secrets'' ''data'';
          postgres = get_or_empty config ''postgres'';
          grafana = nested_dict config ''observability'' ''grafana'';
          smtp_url = get_if_dict secrets ''SMTP_URL'';
          jwt_secret = get_if_dict secrets ''JWT_SECRET'';
          grafana_user = get_if_dict grafana ''adminUser'';
          grafana_pass = get_if_dict grafana ''adminPassword''
      in run_prints
          [if truthy host
           then Some (fstring [Inr ''Ingress URL: http://'', py_str limit host, Inr '':8080''])
           else None,
           case postgres of
             YDict p \<Rightarrow>
               (let username = dict_get p ''username'';
                    password = dict_get p ''password''
                in if truthy username \<and> truthy password
                   then Some (fstring [Inr ''Postgres credentials: '', py_str limit username,
                                       Inr ''/'', py_str limit password])
                   else None)
           | _ \<Rightarrow> None,
           if truthy smtp_url then Some (fstring [Inr ''SMTP URL: '', py_str limit smtp_url])
           else None,
           if truthy jwt_secret then Some (fstring [Inr ''JWT secret: '', py_str limit jwt_secret])
           else None,
           if truthy grafana_user \<and> truthy grafana_pass
           then Some (fstring [Inr ''Grafana credentials: '', py_str limit grafana_user,
                               Inr ''/'', py_str limit grafana_pass])
           else None])"

definition main :: "nat \<Rightarrow> error + string list \<Rightarrow> string list \<times> error option" where
  \<comment> \<open>\<^verbatim>\<open>main()\<close>. The first argument is the bound on nested \<^verbatim>\<open>repr\<close> calls; the second is
      the outcome of \<^verbatim>\<open>config_path.read_text().splitlines()\<close>: the lines of the file, or
      the exception raised. The result is the lines printed and the exception that
      leaves \<^verbatim>\<open>main\<close>, if any.\<close>
  "main limit read_result =
     (case read_result of
        Inl FileNotFoundError \<Rightarrow> ([], None)
      | Inl e \<Rightarrow> ([], Some e)
      | Inr lines \<Rightarrow>
          (case parse_yaml lines of
             Inl e \<Rightarrow> ([], Some e)
           | Inr config \<Rightarrow> report limit config))"

section \<open>What one line does to the state\<close>

text \<open>
  The pieces of one loop iteration, named so that statements about it can be read:
  the frames left after the \<^verbatim>\<open>while\<close> loop, the dictionary the key is stored in,
  whether a new dictionary object is created, and the entry stored.
\<close>

definition frames_kept :: "string \<Rightarrow> pstate \<Rightarrow> (int \<times> nat) list" where
  "frames_kept l s = pop_frames (line_indent l) (stack s)"

definition target :: "string \<Rightarrow> pstate \<Rightarrow> nat" where
  \<comment> \<open>\<^verbatim>\<open>parent = stack[-1][1]\<close>, as an address\<close>
  "target l s = snd (last (frames_kept l s))"

definition allocates :: "string \<Rightarrow> bool" where
  \<comment> \<open>the line creates a dictionary: \<^verbatim>\<open>node = {}\<close>, or \<^verbatim>\<open>parsed = {}\<close>\<close>
  "allocates l = (line_value l = [] \<or> line_value l = ''{}'')"

definition new_value :: "string \<Rightarrow> pstate \<Rightarrow> pyval" where
  \<comment> \<open>what \<^verbatim>\<open>parent[key]\<close> is set to\<close>
  "new_value l s =
     (if line_value l = [] then PDict (length (store s))
      else if line_value l = ''[]'' then PList
      else if line_value l = ''{}'' then PDict (length (store s))
      else PStr (strip_quotes (line_value l)))"

definition parsed_value :: "string \<Rightarrow> YamlValue" where
  \<comment> \<open>lines 34 to 47, as a value: what a line with raw value \<^verbatim>\<open>v\<close> stores when nothing
      is nested under it\<close>
  "parsed_value v =
     (if v = [] then YDict []
      else if v = ''[]'' then YList []
      else if v = ''{}'' then YDict []
      else YStr (strip_quotes v))"

section \<open>Invariants of the parser state\<close>

definition refs_ok :: "pydict list \<Rightarrow> bool" where
  \<comment> \<open>a dictionary only holds dictionaries created after it\<close>
  "refs_ok st =
     (\<forall>a k b. a < length st \<and> (k, PDict b) \<in> set (st ! a) \<longrightarrow> a < b \<and> b < length st)"

definition refs_from :: "nat \<Rightarrow> nat \<Rightarrow> pydict \<Rightarrow> bool" where
  "refs_from lo n d = (\<forall>k b. (k, PDict b) \<in> set d \<longrightarrow> lo \<le> b \<and> b < n)"

definition linked :: "pydict list \<Rightarrow> nat list \<Rightarrow> bool" where
  \<comment> \<open>each dictionary of the list holds the next one under some key\<close>
  "linked st as =
     (\<forall>i. Suc i < length as \<longrightarrow> (\<exists>k. dict_get (st ! (as ! i)) k = Some (PDict (as ! Suc i))))"

definition state_ok :: "pstate \<Rightarrow> bool" where
  "state_ok s =
     (stack s \<noteq> [] \<and> hd (stack s) = (- 1, 0) \<and>
      sorted_wrt (<) (map fst (stack s)) \<and>
      sorted_wrt (<) (map snd (stack s)) \<and>
      (\<forall>f \<in> set (stack s). snd f < length (store s)) \<and>
      refs_ok (store s) \<and>
      linked (store s) (map snd (stack s)))"


section \<open>Notions of the specification\<close>

definition wrapped_in_pair :: "char \<Rightarrow> string \<Rightarrow> bool" where
  \<comment> \<open>the specification's "wrapped in a matching pair of quotes": a quote character at
      each end, so at least two characters\<close>
  "wrapped_in_pair q v = (2 \<le> length v \<and> hd v = q \<and> last v = q)"






section \<open>Lemmas about the parser\<close>

lemma line_indent_nonneg: "0 \<le> line_indent l"
  unfolding line_indent_def lstrip_space_def
  by (simp add: length_dropWhile_le)

lemma pop_frames_eq: "pop_frames i stk = rev (dropWhile (\<lambda>f. i \<le> fst f) (rev stk))"
proof (induction i stk rule: pop_frames.induct)
  case (1 indent stk)
  show ?case
  proof (cases "stk \<noteq> [] \<and> indent \<le> fst (last stk)")
    case True
    then obtain ys y where s: "stk = ys @ [y]" by (metis append_butlast_last_id)
    with True 1 show ?thesis by (subst pop_frames.simps) simp 
  next
    case False
    then show ?thesis by (subst pop_frames.simps) (cases stk rule: rev_cases; auto)
  qed
qed

lemma pop_frames_take: "\<exists>n. pop_frames i stk = take n stk"
proof -
  have "rev (dropWhile (\<lambda>f. i \<le> fst f) (rev stk)) = take (length stk - length (takeWhile (\<lambda>f. i \<le> fst f) (rev stk))) stk"
    by (metis dropWhile_eq_drop rev_drop rev_rev_ident length_rev)
  thus ?thesis unfolding pop_frames_eq by blast
qed

lemma pop_frames_top: "pop_frames i stk \<noteq> [] \<Longrightarrow> fst (last (pop_frames i stk)) < i"
  unfolding pop_frames_eq
  by (metis (mono_tags, lifting) hd_dropWhile hd_rev rev_is_Nil_conv not_le rev_rev_ident)

lemma pop_frames_idle: "stk = [] \<or> fst (last stk) < i \<Longrightarrow> pop_frames i stk = stk"
  by (subst pop_frames.simps) auto

lemma pop_frames_keeps_root:
  assumes "stk \<noteq> []" "fst (hd stk) < i"
  shows "pop_frames i stk \<noteq> [] \<and> hd (pop_frames i stk) = hd stk"
  using assms
proof (induction i stk rule: pop_frames.induct)
  case (1 indent stk)
  show ?case
  proof (cases "indent \<le> fst (last stk)")
    case True
    with 1(2,3) have "butlast stk \<noteq> []" by (cases stk rule: rev_cases; cases "butlast stk"; auto)
    moreover hence "hd (butlast stk) = hd stk" by (cases stk rule: rev_cases; auto)
    ultimately show ?thesis using 1 True by (subst (1 2) pop_frames.simps) auto
  next
    case False
    then show ?thesis using 1 by (subst (1 2) pop_frames.simps) auto
  qed
qed


lemma parse_line_eq:
  assumes "\<not> line_skipped l" "frames_kept l s \<noteq> []"
  shows "parse_line l s =
     Inr \<lparr>store = store_set (if allocates l then store s @ [[]] else store s) (target l s) (line_key l) (new_value l s),
          stack = frames_kept l s @ (if line_value l = [] then [(line_indent l, length (store s))] else [])\<rparr>"
  using assms
  by (simp add: parse_line_def Let_def allocates_def new_value_def target_def frames_kept_def)

lemma dict_get_set: "dict_get (dict_set k v d) k' = (if k' = k then Some v else dict_get d k')"
  by (induction d) (auto simp: dict_get_def)

lemma set_dict_set: "set (dict_set k v d) \<subseteq> insert (k, v) (set d)"
  by (induction d) (auto split: if_splits)

lemma length_store_set [simp]: "length (store_set st p k v) = length st"
  by (simp add: store_set_def)

lemma store_set_same: "p < length st \<Longrightarrow> store_set st p k v ! p = dict_set k v (st ! p)"
  by (simp add: store_set_def)

lemma store_set_other: "a \<noteq> p \<Longrightarrow> store_set st p k v ! a = st ! a"
  by (simp add: store_set_def)

lemma refs_ok_alloc:
  assumes "refs_ok st"
  shows "refs_ok (st @ [[]])"
  unfolding refs_ok_def
proof (intro allI impI)
  fix a k b
  assume h: "a < length (st @ [[]]) \<and> (k, PDict b) \<in> set ((st @ [[]]) ! a)"
  have "a < length st"
  proof (rule ccontr)
    assume "\<not> a < length st"
    with h have "a = length st" by simp
    with h show False by simp
  qed
  moreover from this h have "(k, PDict b) \<in> set (st ! a)" by (simp add: nth_append)
  ultimately have "a < b \<and> b < length st" using assms unfolding refs_ok_def by blast
  thus "a < b \<and> b < length (st @ [[]])" by simp
qed

lemma refs_ok_store_set:
  assumes "refs_ok st" "p < length st" "\<And>b. v = PDict b \<Longrightarrow> p < b \<and> b < length st"
  shows "refs_ok (store_set st p k v)"
  unfolding refs_ok_def
proof (intro allI impI)
  fix a k' b
  assume h: "a < length (store_set st p k v) \<and> (k', PDict b) \<in> set (store_set st p k v ! a)"
  hence a: "a < length st" by simp
  have "a < b \<and> b < length st"
  proof (cases "a = p")
    case True
    have "(k', PDict b) \<in> set (dict_set k v (st ! p))"
      using h True assms(2) by (simp add: store_set_same)
    hence "(k', PDict b) = (k, v) \<or> (k', PDict b) \<in> set (st ! p)"
      using set_dict_set[of k v "st ! p"] by blast
    then show ?thesis
    proof
      assume "(k', PDict b) = (k, v)"
      hence "v = PDict b" by simp
      from assms(3)[OF this] True show ?thesis by simp
    next
      assume "(k', PDict b) \<in> set (st ! p)"
      with assms(1,2) True show ?thesis unfolding refs_ok_def by blast
    qed
  next
    case False
    hence "(k', PDict b) \<in> set (st ! a)" using h by (simp add: store_set_other)
    with assms(1) a show ?thesis unfolding refs_ok_def by blast
  qed
  thus "a < b \<and> b < length (store_set st p k v)" by simp
qed

lemma frames_kept_take: "\<exists>n. frames_kept l s = take n (stack s)"
  unfolding frames_kept_def by (rule pop_frames_take)

lemma state_ok_frames_kept:
  assumes "state_ok s"
  shows "frames_kept l s \<noteq> []" "hd (frames_kept l s) = (- 1, 0)"
  using assms pop_frames_keeps_root[of "stack s" "line_indent l"] line_indent_nonneg[of l]
  by (auto simp: state_ok_def frames_kept_def)

lemma linked_take: "linked st as \<Longrightarrow> linked st (take n as)"
  unfolding linked_def by auto

lemma sorted_last_neq:
  assumes "sorted_wrt (<) (as :: nat list)" "Suc i < length as"
  shows "as ! i < last as"
proof -
  have "as ! i < as ! (length as - 1)"
    by (rule sorted_wrt_nth_less[OF assms(1)]) (use assms(2) in auto)
  moreover have "as \<noteq> []" using assms(2) by auto
  ultimately show ?thesis by (simp add: last_conv_nth)
qed

lemma linked_store_set:
  assumes "linked st as" "sorted_wrt (<) as" "as \<noteq> []"
  shows "linked (store_set st (last as) k v) as"
  unfolding linked_def
proof (intro allI impI)
  fix i assume i: "Suc i < length as"
  hence "as ! i \<noteq> last as" using sorted_last_neq[OF assms(2) i] by simp
  thus "\<exists>k'. dict_get (store_set st (last as) k v ! (as ! i)) k' = Some (PDict (as ! Suc i))"
    using assms(1) i unfolding linked_def by (simp add: store_set_other)
qed

lemma linked_alloc:
  assumes "linked st as" "\<forall>a\<in>set as. a < length st"
  shows "linked (st @ [[]]) as"
  using assms unfolding linked_def by (auto simp: nth_append)

lemma linked_push:
  assumes "linked st as" "as \<noteq> []" "dict_get (st ! last as) k = Some (PDict b)"
  shows "linked st (as @ [b])"
  unfolding linked_def
proof (intro allI impI)
  fix i assume i: "Suc i < length (as @ [b])"
  show "\<exists>k. dict_get (st ! ((as @ [b]) ! i)) k = Some (PDict ((as @ [b]) ! Suc i))"
  proof (cases "Suc i < length as")
    case True
    then show ?thesis using assms(1) unfolding linked_def by (auto simp: nth_append)
  next
    case False
    hence "i = length as - 1" "Suc i = length as" using i assms(2) by auto
    then show ?thesis using assms(2,3) by (auto simp: nth_append last_conv_nth intro!: exI[of _ k])
  qed
qed

lemma sorted_le_last:
  assumes "sorted_wrt (<) (xs :: int list)" "x \<in> set xs"
  shows "x \<le> last xs"
proof -
  from assms(2) obtain i where i: "i < length xs" "xs ! i = x" by (auto simp: in_set_conv_nth)
  have ne: "xs \<noteq> []" using assms(2) by auto
  show ?thesis
  proof (cases "i = length xs - 1")
    case True
    then show ?thesis using i ne by (simp add: last_conv_nth)
  next
    case False
    hence "i < length xs - 1" using i by simp
    hence "xs ! i < xs ! (length xs - 1)"
      by (intro sorted_wrt_nth_less[OF assms(1)]) (use ne in auto)
    then show ?thesis using i ne by (simp add: last_conv_nth)
  qed
qed

lemma store_set_get:
  "p < length st \<Longrightarrow> dict_get (store_set st p k v ! p) k = Some v"
  by (simp add: store_set_same dict_get_set)

lemma parse_line_ok:
  assumes ok: "state_ok s"
  shows "\<exists>s'. parse_line l s = Inr s' \<and> state_ok s'"
proof (cases "line_skipped l")
  case True
  then show ?thesis using ok by (simp add: parse_line_def)
next
  case False
  define K where "K = frames_kept l s"
  define p where "p = target l s"
  define st0 where "st0 = (if allocates l then store s @ [[]] else store s)"
  define v where "v = new_value l s"
  define st1 where "st1 = store_set st0 p (line_key l) v"
  define extra where "extra = (if line_value l = [] then [(line_indent l, length (store s))] else [])"
  define s' where "s' = \<lparr>store = st1, stack = K @ extra\<rparr>"
  have Kne: "K \<noteq> []" and Khd: "hd K = (- 1, 0)"
    using state_ok_frames_kept[OF ok, of l] by (simp_all add: K_def)
  have eq: "parse_line l s = Inr s'"
    using parse_line_eq[OF False] Kne
    by (simp add: K_def s'_def st1_def st0_def v_def p_def extra_def)
  obtain n where Kt: "K = take n (stack s)" using frames_kept_take[of l s] by (auto simp: K_def)
  have sf: "sorted_wrt (<) (map fst K)" and ss: "sorted_wrt (<) (map snd K)"
    using ok by (simp_all add: state_ok_def Kt take_map[symmetric] sorted_wrt_take)
  have Klt: "\<forall>f\<in>set K. snd f < length (store s)"
    using ok by (auto simp: state_ok_def Kt dest: in_set_takeD)
  have plast: "p = last (map snd K)" using Kne by (simp add: p_def target_def K_def last_map)
  have p: "p < length (store s)" using Klt Kne by (simp add: p_def target_def K_def[symmetric])
  have len0: "length (store s) \<le> length st0" by (simp add: st0_def)
  have r0: "refs_ok st0" using ok by (simp add: st0_def state_ok_def refs_ok_alloc)
  have vref: "\<And>b. v = PDict b \<Longrightarrow> p < b \<and> b < length st0"
    using p by (auto simp: v_def new_value_def st0_def allocates_def split: if_splits)
  have r1: "refs_ok st1"
    unfolding st1_def by (rule refs_ok_store_set[OF r0 _ vref]) (use p len0 in auto)
  have l0: "linked st0 (map snd K)"
  proof -
    have "linked (store s) (map snd K)"
      using ok linked_take[of "store s" "map snd (stack s)" n] by (simp add: state_ok_def Kt take_map)
    moreover have "\<forall>a\<in>set (map snd K). a < length (store s)" using Klt by auto
    ultimately show ?thesis using linked_alloc by (simp add: st0_def)
  qed
  have l1: "linked st1 (map snd K)"
    unfolding st1_def plast by (rule linked_store_set[OF l0 ss]) (use Kne in simp)
  have len1: "length st1 = length st0" by (simp add: st1_def)
  have top: "fst (last K) < line_indent l"
    using pop_frames_top[of "line_indent l" "stack s"] Kne by (simp add: K_def frames_kept_def)
  have ok': "state_ok s'"
  proof (cases "line_value l = []")
    case False
    hence "extra = []" by (simp add: extra_def)
    then show ?thesis
      using Kne Khd sf ss Klt len0 len1 r1 l1 by (auto simp: state_ok_def s'_def)
  next
    case True
    hence ex: "extra = [(line_indent l, length (store s))]" by (simp add: extra_def)
    have alloc: "st0 = store s @ [[]]" and vv: "v = PDict (length (store s))"
      using True by (simp_all add: st0_def allocates_def v_def new_value_def)
    have a: "\<forall>x\<in>set (map fst K). x < line_indent l"
    proof
      fix x assume "x \<in> set (map fst K)"
      hence "x \<le> last (map fst K)" by (rule sorted_le_last[OF sf])
      thus "x < line_indent l" using top Kne by (simp add: last_map)
    qed
    have 1: "sorted_wrt (<) (map fst (K @ extra))"
      using sf a by (simp add: ex sorted_wrt_append)
    have 2: "sorted_wrt (<) (map snd (K @ extra))"
      using ss Klt by (simp add: ex sorted_wrt_append)
    have 3: "\<forall>f\<in>set (K @ extra). snd f < length st1"
      using Klt by (auto simp: ex len1 alloc)
    have "dict_get (st1 ! p) (line_key l) = Some (PDict (length (store s)))"
      unfolding st1_def vv[symmetric] by (rule store_set_get) (use p len0 in auto)
    hence 4: "linked st1 (map snd (K @ extra))"
      using linked_push[OF l1, of "line_key l" "length (store s)"] Kne by (simp add: ex plast)
    show ?thesis
      using Kne Khd 1 2 3 4 r1 by (simp add: state_ok_def s'_def)
  qed
  show ?thesis using eq ok' by blast
qed

lemma state_ok_initial: "state_ok initial"
  by (simp add: state_ok_def initial_def refs_ok_def linked_def)

lemma parse_lines_ok:
  assumes "state_ok s"
  shows "\<exists>s'. parse_lines ls s = Inr s' \<and> state_ok s'"
  using assms
proof (induction ls arbitrary: s)
  case Nil
  then show ?case by simp
next
  case (Cons l ls)
  from parse_line_ok[OF Cons.prems, of l] obtain s1 where "parse_line l s = Inr s1" "state_ok s1" by blast
  with Cons.IH[of s1] show ?case by simp
qed


lemma refs_from_Cons:
  "refs_from lo n ((k, v) # d) = ((\<forall>b. v = PDict b \<longrightarrow> lo \<le> b \<and> b < n) \<and> refs_from lo n d)"
  unfolding refs_from_def by auto

lemma refs_ok_refs_from: "refs_ok st \<Longrightarrow> a < length st \<Longrightarrow> refs_from (Suc a) (length st) (st ! a)"
  unfolding refs_ok_def refs_from_def by (metis Suc_leI)

lemma read_total:
  shows "refs_ok st \<Longrightarrow> (\<forall>b. v = PDict b \<longrightarrow> lo \<le> b \<and> b < length st) \<Longrightarrow> length st - lo \<le> n
           \<Longrightarrow> \<exists>t. read_value n st v = Some t"
    and "refs_ok st \<Longrightarrow> refs_from lo (length st) d \<Longrightarrow> length st - lo \<le> n
           \<Longrightarrow> \<exists>ts. read_dict n st d = Some ts"
proof (induction n st v and n st d arbitrary: lo and lo rule: read_value_read_dict.induct)
  case (1 n st s)
  then show ?case by simp
next
  case (2 n st)
  then show ?case by simp
next
  case (3 st a)
  then show ?case by auto
next
  case (4 n st a)
  have a: "lo \<le> a" "a < length st" using 4(3) by auto
  have "refs_from (Suc a) (length st) (st ! a)" by (rule refs_ok_refs_from[OF 4(2) a(2)])
  moreover have "length st - Suc a \<le> n" using 4(4) a by simp
  ultimately obtain ts where "read_dict n st (st ! a) = Some ts" using 4(1)[OF a(2) 4(2)] by blast
  then show ?case using a by simp
next
  case (5 n st)
  then show ?case by simp
next
  case (6 n st k v d)
  from 6(4) have v: "\<forall>b. v = PDict b \<longrightarrow> lo \<le> b \<and> b < length st" and d: "refs_from lo (length st) d"
    by (simp_all add: refs_from_Cons)
  from 6(1)[OF 6(3) v 6(5)] obtain t where t: "read_value n st v = Some t" by blast
  from 6(2)[OF t 6(3) d 6(5)] obtain ts where "read_dict n st d = Some ts" by blast
  with t show ?case by simp
qed

lemma read_root_total:
  assumes "state_ok s"
  shows "\<exists>d. read_dict (length (store s)) (store s) (store s ! 0) = Some d"
proof -
  have r: "refs_ok (store s)" using assms by (simp add: state_ok_def)
  have ne: "stack s \<noteq> []" and hd: "hd (stack s) = (- 1, 0)"
    and lt: "\<forall>f\<in>set (stack s). snd f < length (store s)"
    using assms by (simp_all add: state_ok_def)
  have "hd (stack s) \<in> set (stack s)" using ne by (rule hd_in_set)
  with lt have "snd (hd (stack s)) < length (store s)" by blast
  hence 0: "0 < length (store s)" by (simp add: hd)
  show ?thesis
    by (rule read_total(2)[OF r refs_ok_refs_from[OF r 0]]) simp
qed

lemma parse_yaml_returns: "\<exists>root. parse_yaml lines = Inr root"
proof -
  obtain s where s: "parse_lines lines initial = Inr s" "state_ok s"
    using parse_lines_ok[OF state_ok_initial] by blast
  from read_root_total[OF s(2)] show ?thesis using s(1) by (auto simp: parse_yaml_def)
qed

lemma parse_prefix_ok: "\<exists>s. parse_lines (take n lines) initial = Inr s \<and> state_ok s"
  by (rule parse_lines_ok[OF state_ok_initial])

lemma frames_kept_initial: "frames_kept l initial = [(- 1, 0)]"
  unfolding frames_kept_def initial_def
  using line_indent_nonneg[of l] by (simp add: pop_frames_idle)

lemma parse_line_initial:
  assumes "\<not> line_skipped l"
  shows "parse_line l initial =
     Inr \<lparr>store = store_set (if allocates l then [[], []] else [[]]) 0 (line_key l) (new_value l initial),
          stack = [(- 1, 0)] @ (if line_value l = [] then [(line_indent l, 1)] else [])\<rparr>"
proof -
  have "frames_kept l initial \<noteq> []" by (simp add: frames_kept_initial)
  from parse_line_eq[OF assms this] show ?thesis
    by (simp add: target_def frames_kept_initial) (simp add: initial_def)
qed

lemma parse_single_line:
  assumes "\<not> line_skipped l"
  shows "parse_yaml [l] = Inr [(line_key l, parsed_value (line_value l))]"
proof (cases "allocates l")
  case True
  hence v: "new_value l initial = PDict 1" "parsed_value (line_value l) = YDict []"
    by (auto simp: allocates_def new_value_def parsed_value_def initial_def)
  show ?thesis
    unfolding parse_yaml_def
    by (simp add: parse_line_initial[OF assms] True v store_set_def)
next
  case False
  hence "(new_value l initial = PList \<and> parsed_value (line_value l) = YList []) \<or>
     (new_value l initial = PStr (strip_quotes (line_value l)) \<and>
      parsed_value (line_value l) = YStr (strip_quotes (line_value l)))"
    by (auto simp: allocates_def new_value_def parsed_value_def)
  then show ?thesis
    unfolding parse_yaml_def
    by (auto simp add: parse_line_initial[OF assms] False store_set_def)
qed

lemma partition_found:
  assumes "sep \<in> set s"
  shows "\<exists>rest. partition sep s = (takeWhile (\<lambda>c. c \<noteq> sep) s, [sep], rest) \<and>
           s = takeWhile (\<lambda>c. c \<noteq> sep) s @ [sep] @ rest"
proof -
  have ne: "dropWhile (\<lambda>c. c \<noteq> sep) s \<noteq> []" using assms by auto
  then obtain c rest where d: "dropWhile (\<lambda>c. c \<noteq> sep) s = c # rest" by (cases "dropWhile (\<lambda>c. c \<noteq> sep) s") auto
  have "\<not> (hd (dropWhile (\<lambda>c. c \<noteq> sep) s) \<noteq> sep)" using ne by (rule hd_dropWhile)
  hence c: "c = sep" using d by simp
  have "s = takeWhile (\<lambda>c. c \<noteq> sep) s @ dropWhile (\<lambda>c. c \<noteq> sep) s" by simp
  hence "s = takeWhile (\<lambda>c. c \<noteq> sep) s @ [sep] @ rest" using d c by simp
  thus ?thesis using d c by (simp add: partition_def)
qed

lemma partition_missing:
  assumes "sep \<notin> set s"
  shows "partition sep s = (s, [], [])"
proof -
  have d: "dropWhile (\<lambda>c. c \<noteq> sep) s = []" using assms by auto
  show ?thesis unfolding partition_def d by simp
qed

lemma target_in_store:
  assumes "state_ok s"
  shows "target l s < length (store s)"
proof -
  have ne: "frames_kept l s \<noteq> []" by (rule state_ok_frames_kept(1)[OF assms])
  obtain n where "frames_kept l s = take n (stack s)" using frames_kept_take by blast
  with ne have "last (frames_kept l s) \<in> set (stack s)" by (metis in_set_takeD last_in_set)
  thus ?thesis using assms by (simp add: state_ok_def target_def)
qed

lemma parse_line_writes:
  assumes "state_ok s" "\<not> line_skipped l"
  shows "\<exists>s'. parse_line l s = Inr s' \<and>
     store s' = store_set (if allocates l then store s @ [[]] else store s) (target l s) (line_key l) (new_value l s) \<and>
     stack s' = frames_kept l s @ (if line_value l = [] then [(line_indent l, length (store s))] else []) \<and>
     dict_get (store s' ! target l s) (line_key l) = Some (new_value l s)"
proof -
  have ne: "frames_kept l s \<noteq> []" by (rule state_ok_frames_kept(1)[OF assms(1)])
  have "target l s < length (if allocates l then store s @ [[]] else store s)"
    using target_in_store[OF assms(1), of l] by simp
  hence "dict_get (store_set (if allocates l then store s @ [[]] else store s) (target l s) (line_key l) (new_value l s) ! target l s) (line_key l) = Some (new_value l s)"
    by (rule store_set_get)
  thus ?thesis using parse_line_eq[OF assms(2) ne] by simp
qed

lemma slice_1_m1_eq: "slice_1_m1 v = butlast (tl v)"
  by (simp add: slice_1_m1_def butlast_conv_take drop_Suc drop_tl tl_take)

lemma starts_ends_iff:
  "(startswith v q \<and> endswith v q) = (wrapped_in_pair q v \<or> v = [q])"
proof (cases v)
  case Nil
  then show ?thesis by (simp add: startswith_def endswith_def wrapped_in_pair_def)
next
  case (Cons a w)
  then show ?thesis
    by (cases w) (auto simp: startswith_def endswith_def wrapped_in_pair_def)
qed

lemma strip_quotes_cases:
  "strip_quotes v =
     (if wrapped_in_pair dquote v \<or> wrapped_in_pair squote v then butlast (tl v)
      else if v = [dquote] \<or> v = [squote] then [] else v)"
  unfolding strip_quotes_def starts_ends_iff slice_1_m1_eq by auto

lemma frames_kept_idle:
  assumes "stack s \<noteq> []" "fst (last (stack s)) < line_indent l"
  shows "frames_kept l s = stack s"
  unfolding frames_kept_def using assms by (simp add: pop_frames_idle)

lemma frames_kept_top:
  assumes "state_ok s"
  shows "fst (last (frames_kept l s)) < line_indent l"
  unfolding frames_kept_def
  by (rule pop_frames_top) (use state_ok_frames_kept(1)[OF assms, of l] in \<open>simp add: frames_kept_def\<close>)












section \<open>Lemmas about the reporter\<close>


















section \<open>Safety and the stack invariant\<close>

text \<open>
  C2. \<^verbatim>\<open>parse_yaml\<close> returns a root mapping for every list of lines and never raises.
  Whenever a line is processed, its indentation is at least 0, so the \<^verbatim>\<open>while\<close> loop
  leaves a non-empty stack whose bottom frame is still the root frame \<^verbatim>\<open>(-1, root)\<close>:
  the read of \<^verbatim>\<open>stack[-1]\<close> that follows cannot fail.
\<close>

theorem parse_yaml_never_raises:
  "(\<exists>root. parse_yaml lines = Inr root) \<and>
   (\<forall>n<length lines. \<exists>s.
      parse_lines (take n lines) initial = Inr s \<and>
      0 \<le> line_indent (lines ! n) \<and>
      pop_frames (line_indent (lines ! n)) (stack s) \<noteq> [] \<and>
      hd (pop_frames (line_indent (lines ! n)) (stack s)) = (- 1, 0))"
proof (intro conjI allI impI)
  show "\<exists>root. parse_yaml lines = Inr root" by (rule parse_yaml_returns)
next
  fix n assume "n < length lines"
  obtain s where s: "parse_lines (take n lines) initial = Inr s" "state_ok s"
    using parse_prefix_ok by blast
  from state_ok_frames_kept[OF s(2), of "lines ! n"] s(1) line_indent_nonneg[of "lines ! n"]
  show "\<exists>s. parse_lines (take n lines) initial = Inr s \<and>
      0 \<le> line_indent (lines ! n) \<and>
      pop_frames (line_indent (lines ! n)) (stack s) \<noteq> [] \<and>
      hd (pop_frames (line_indent (lines ! n)) (stack s)) = (- 1, 0)"
    by (auto simp: frames_kept_def)
qed

theorem parse_yaml_never_raises_witness:
  "parse_yaml [''a:'', ''  b: 1'', ''c: 2''] \<noteq> Inl IndexError \<and>
   (2::nat) < length [''a:'', ''  b: 1'', ''c: 2''] \<and>
   (\<exists>s. parse_lines (take 2 [''a:'', ''  b: 1'', ''c: 2'']) initial = Inr s \<and>
        stack s = [(- 1, 0), (0, 1)] \<and>
        pop_frames (line_indent ([''a:'', ''  b: 1'', ''c: 2''] ! 2)) (stack s) = [(- 1, 0)])"
proof -
  have n: "(2::nat) < length [''a:'', ''  b: 1'', ''c: 2'']" by simp
  have run: "parse_lines (take 2 [''a:'', ''  b: 1'', ''c: 2'']) initial
     = Inr \<lparr>store = [[(''a'', PDict 1)], [(''b'', PStr ''1'')]], stack = [(- 1, 0), (0, 1)]\<rparr>"
    by code_simp
  have pop: "pop_frames (line_indent ([''a:'', ''  b: 1'', ''c: 2''] ! 2)) [(- 1, 0), (0, 1)] = [(- 1, 0)]"
    by code_simp
  from parse_yaml_never_raises[of "[''a:'', ''  b: 1'', ''c: 2'']"]
  have "\<exists>root. parse_yaml [''a:'', ''  b: 1'', ''c: 2''] = Inr root" by blast
  hence "parse_yaml [''a:'', ''  b: 1'', ''c: 2''] \<noteq> Inl IndexError" by auto
  thus ?thesis using n run pop by simp
qed



section \<open>Lines, keys and values\<close>

text \<open>
  C6. A line is split at the first colon of its stripped content only. When there is a
  colon, the key is what stands before the first one (it holds no colon, and is not
  trimmed again) and the value is everything after that colon, stripped, so later
  colons stay in the value. When there is no colon, the key is the whole stripped line
  and the value is empty. A retained line, parsed alone, stores its value under
  exactly that key.
\<close>

theorem split_at_first_colon:
  "(CHR '':'' \<in> set (strip l) \<longrightarrow>
      (\<exists>rest. strip l = line_key l @ '':'' @ rest \<and>
              CHR '':'' \<notin> set (line_key l) \<and>
              line_value l = strip rest)) \<and>
   (CHR '':'' \<notin> set (strip l) \<longrightarrow> line_key l = strip l \<and> line_value l = []) \<and>
   (\<not> line_skipped l \<longrightarrow> parse_yaml [l] = Inr [(line_key l, parsed_value (line_value l))])"
proof -
  have A: "\<exists>rest. strip l = line_key l @ '':'' @ rest \<and>
              CHR '':'' \<notin> set (line_key l) \<and> line_value l = strip rest"
    if "CHR '':'' \<in> set (strip l)"
  proof -
    from partition_found[OF that] obtain rest where
      p: "partition (CHR '':'') (strip l) = (takeWhile (\<lambda>c. c \<noteq> CHR '':'') (strip l), '':'', rest)"
      and s: "strip l = takeWhile (\<lambda>c. c \<noteq> CHR '':'') (strip l) @ '':'' @ rest" by blast
    have k: "line_key l = takeWhile (\<lambda>c. c \<noteq> CHR '':'') (strip l)" by (simp add: line_key_def p)
    have "CHR '':'' \<notin> set (line_key l)" unfolding k by (auto dest: set_takeWhileD)
    moreover have "line_value l = strip rest" by (simp add: line_value_def p)
    moreover have "strip l = line_key l @ '':'' @ rest" using s k by simp
    ultimately show ?thesis by blast
  qed
  have B: "line_key l = strip l \<and> line_value l = []" if "CHR '':'' \<notin> set (strip l)"
    using partition_missing[OF that]
    by (simp add: line_key_def line_value_def strip_def lstrip_def rstrip_def)
  have C: "parse_yaml [l] = Inr [(line_key l, parsed_value (line_value l))]" if "\<not> line_skipped l"
    using that by (rule parse_single_line)
  show ?thesis using A B C by blast
qed

theorem split_at_first_colon_witness:
  "CHR '':'' \<in> set (strip ''SMTP_URL: smtp://localhost:1025'') \<and>
   line_key ''SMTP_URL: smtp://localhost:1025'' = ''SMTP_URL'' \<and>
   line_value ''SMTP_URL: smtp://localhost:1025'' = ''smtp://localhost:1025'' \<and>
   \<not> line_skipped ''SMTP_URL: smtp://localhost:1025'' \<and>
   parse_yaml [''SMTP_URL: smtp://localhost:1025''] = Inr [(''SMTP_URL'', YStr ''smtp://localhost:1025'')] \<and>
   CHR '':'' \<notin> set (strip ''  orphan  '') \<and>
   line_key ''  orphan  '' = ''orphan'' \<and> line_value ''  orphan  '' = [] \<and>
   line_key ''a : b'' = ''a ''"
proof -
  have c: "CHR '':'' \<in> set (strip ''SMTP_URL: smtp://localhost:1025'')" by code_simp
  have r: "\<not> line_skipped ''SMTP_URL: smtp://localhost:1025''" by code_simp
  have k: "line_key ''SMTP_URL: smtp://localhost:1025'' = ''SMTP_URL''" by code_simp
  have v: "line_value ''SMTP_URL: smtp://localhost:1025'' = ''smtp://localhost:1025''" by code_simp
  have pv: "parsed_value ''smtp://localhost:1025'' = YStr ''smtp://localhost:1025''" by code_simp
  have n: "CHR '':'' \<notin> set (strip ''  orphan  '')" by code_simp
  have s: "strip ''  orphan  '' = ''orphan''" by code_simp
  have a: "line_key ''a : b'' = ''a ''" by code_simp
  from split_at_first_colon[of "''SMTP_URL: smtp://localhost:1025''"] r
  have 1: "parse_yaml [''SMTP_URL: smtp://localhost:1025''] = Inr [(''SMTP_URL'', YStr ''smtp://localhost:1025'')]"
    unfolding k v pv by blast
  from split_at_first_colon[of "''  orphan  ''"] n
  have 2: "line_key ''  orphan  '' = ''orphan'' \<and> line_value ''  orphan  '' = []"
    unfolding s by blast
  show ?thesis using c r k v 1 n 2 a by blast
qed

text \<open>
  C4. For every non-empty raw value that is not an empty-container token, one pair of
  quotes is stripped when the value is wrapped in a matching pair of quotes, and
  otherwise the value is stored unmodified. The script tests for a quote at both ends
  and cuts one character from each end, with no test of the length. So the value that
  is a single double quote, which is not wrapped in a pair, is not stored unmodified:
  it is stored as the empty string.
\<close>

theorem lone_quote_not_left_unmodified:
  "[dquote] \<noteq> [] \<and> [dquote] \<noteq> ''[]'' \<and> [dquote] \<noteq> ''{}'' \<and>
   \<not> wrapped_in_pair dquote [dquote] \<and> \<not> wrapped_in_pair squote [dquote] \<and>
   \<not> line_skipped (''k: '' @ [dquote]) \<and>
   line_value (''k: '' @ [dquote]) = [dquote] \<and>
   strip_quotes [dquote] = [] \<and>
   parse_yaml [''k: '' @ [dquote]] = Inr [(''k'', YStr [])] \<and>
   parse_yaml [''k: '' @ [dquote]] \<noteq> Inr [(''k'', YStr [dquote])]"
  by code_simp

text \<open>
  C10. When the stripped value of a retained line is exactly one quote character, that
  character is both the first and the last one, so the quote-stripping branch is taken
  and the scalar stored is the empty string, whatever was parsed before.
\<close>

theorem lone_quote_gives_empty_string:
  assumes "\<not> line_skipped l" and "line_value l = [q]" and "q = dquote \<or> q = squote"
  shows "startswith (line_value l) q \<and> endswith (line_value l) q \<and>
         strip_quotes (line_value l) = [] \<and>
         parse_yaml [l] = Inr [(line_key l, YStr [])] \<and>
         (\<exists>s s'. parse_lines pre initial = Inr s \<and> parse_line l s = Inr s' \<and>
                 dict_get (store s' ! target l s) (line_key l) = Some (PStr []))"
proof -
  have se: "startswith (line_value l) q \<and> endswith (line_value l) q"
    by (simp add: assms(2) startswith_def endswith_def)
  have sq: "strip_quotes (line_value l) = []"
    using assms(2,3) by (auto simp: strip_quotes_cases wrapped_in_pair_def)
  have ne: "[q] \<noteq> ''[]'' \<and> [q] \<noteq> ''{}''" by simp
  have nv: "new_value l s = PStr []" for s
    using sq assms(2) by (simp add: new_value_def)
  have pv: "parsed_value (line_value l) = YStr []"
    using sq assms(2) by (simp add: parsed_value_def)
  have one: "parse_yaml [l] = Inr [(line_key l, YStr [])]"
    using parse_single_line[OF assms(1)] by (simp add: pv)
  obtain s where s: "parse_lines pre initial = Inr s" "state_ok s"
    using parse_lines_ok[OF state_ok_initial] by blast
  from parse_line_writes[OF s(2) assms(1)] obtain s' where
    "parse_line l s = Inr s'" "dict_get (store s' ! target l s) (line_key l) = Some (PStr [])"
    by (auto simp: nv)
  with s(1) se sq one show ?thesis by blast
qed

theorem lone_quote_gives_empty_string_witness:
  "\<not> line_skipped (''k: '' @ [dquote]) \<and> line_value (''k: '' @ [dquote]) = [dquote] \<and>
   parse_yaml [''k: '' @ [dquote]] = Inr [(''k'', YStr [])] \<and>
   \<not> line_skipped (''  k: '' @ [squote]) \<and> line_value (''  k: '' @ [squote]) = [squote] \<and>
   (\<exists>s s'. parse_lines [''a:''] initial = Inr s \<and> parse_line (''  k: '' @ [squote]) s = Inr s' \<and>
           dict_get (store s' ! 1) ''k'' = Some (PStr []))"
proof -
  let ?l = "''k: '' @ [dquote]"
  let ?m = "''  k: '' @ [squote]"
  have r: "\<not> line_skipped ?l" by code_simp
  have v: "line_value ?l = [dquote]" by code_simp
  have k: "line_key ?l = ''k''" by code_simp
  have r2: "\<not> line_skipped ?m" by code_simp
  have v2: "line_value ?m = [squote]" by code_simp
  have k2: "line_key ?m = ''k''" by code_simp
  have run: "parse_lines [''a:''] initial = Inr \<lparr>store = [[(''a'', PDict 1)], []], stack = [(- 1, 0), (0, 1)]\<rparr>"
    by code_simp
  have t: "target ?m \<lparr>store = [[(''a'', PDict 1)], []], stack = [(- 1, 0), (0, 1)]\<rparr> = 1" by code_simp
  from lone_quote_gives_empty_string[OF r v, of "[]"]
  have 1: "parse_yaml [?l] = Inr [(''k'', YStr [])]" unfolding k by blast
  from lone_quote_gives_empty_string[OF r2 v2, of "[''a:'']"]
  obtain s s' where s: "parse_lines [''a:''] initial = Inr s" "parse_line ?m s = Inr s'"
    "dict_get (store s' ! target ?m s) (line_key ?m) = Some (PStr [])" by blast
  from s(1) run have eq: "s = \<lparr>store = [[(''a'', PDict 1)], []], stack = [(- 1, 0), (0, 1)]\<rparr>" by simp
  have "dict_get (store s' ! 1) ''k'' = Some (PStr [])" using s(3) unfolding eq t k2 .
  with s(1,2) have 2: "\<exists>s s'. parse_lines [''a:''] initial = Inr s \<and> parse_line ?m s = Inr s' \<and>
           dict_get (store s' ! 1) ''k'' = Some (PStr [])" by blast
  show ?thesis using r v 1 r2 v2 2 by blast
qed

section \<open>Containers and nesting\<close>

text \<open>
  C5. At any point of a parse, a retained line whose value is \<^verbatim>\<open>{}\<close> stores a new, empty
  dictionary under its key, and one whose value is \<^verbatim>\<open>[]\<close> stores the empty list; the
  stack afterwards is just what the \<^verbatim>\<open>while\<close> loop left, with no frame pushed. So a
  retained line that follows with a larger indentation pops nothing and stores its key
  in the dictionary on top of the stack, which is the one the token line wrote to; the
  dictionary created for \<^verbatim>\<open>{}\<close> stays empty.
\<close>

theorem empty_container_tokens:
  assumes "\<not> line_skipped l" and "line_value l = ''{}'' \<or> line_value l = ''[]''"
    and "\<not> line_skipped l2" and "line_indent l < line_indent l2"
  shows "\<exists>s s1 s2.
     parse_lines pre initial = Inr s \<and> parse_line l s = Inr s1 \<and> parse_line l2 s1 = Inr s2 \<and>
     stack s1 = frames_kept l s \<and>
     dict_get (store s1 ! target l s) (line_key l)
       = Some (if line_value l = ''[]'' then PList else PDict (length (store s))) \<and>
     (line_value l = ''{}'' \<longrightarrow> store s1 ! length (store s) = []) \<and>
     frames_kept l2 s1 = stack s1 \<and> target l2 s1 = target l s \<and>
     dict_get (store s2 ! target l s) (line_key l2) = Some (new_value l2 s1) \<and>
     (line_value l = ''{}'' \<longrightarrow> store s2 ! length (store s) = [])"
proof -
  obtain s where s: "parse_lines pre initial = Inr s" "state_ok s"
    using parse_lines_ok[OF state_ok_initial] by blast
  have nb: "line_value l \<noteq> []" using assms(2) by auto
  from parse_line_writes[OF s(2) assms(1)] obtain s1 where s1: "parse_line l s = Inr s1"
    "store s1 = store_set (if allocates l then store s @ [[]] else store s) (target l s) (line_key l) (new_value l s)"
    "stack s1 = frames_kept l s"
    "dict_get (store s1 ! target l s) (line_key l) = Some (new_value l s)"
    using nb by auto
  have ok1: "state_ok s1" using parse_line_ok[OF s(2), of l] s1(1) by simp
  have nv: "new_value l s = (if line_value l = ''[]'' then PList else PDict (length (store s)))"
    using assms(2) by (auto simp: new_value_def)
  have p: "target l s < length (store s)" by (rule target_in_store[OF s(2)])
  have e1: "store s1 ! length (store s) = []" if "line_value l = ''{}''"
  proof -
    have "allocates l" using that by (simp add: allocates_def)
    thus ?thesis using p by (simp add: s1(2) store_set_other)
  qed
  have ne1: "stack s1 \<noteq> []" using state_ok_frames_kept(1)[OF s(2), of l] by (simp add: s1(3))
  have "fst (last (stack s1)) < line_indent l" unfolding s1(3) by (rule frames_kept_top[OF s(2)])
  hence "fst (last (stack s1)) < line_indent l2" using assms(4) by simp
  hence k2: "frames_kept l2 s1 = stack s1" by (rule frames_kept_idle[OF ne1])
  hence t2: "target l2 s1 = target l s" by (simp add: target_def s1(3))
  from parse_line_writes[OF ok1 assms(3)] obtain s2 where s2: "parse_line l2 s1 = Inr s2"
    "store s2 = store_set (if allocates l2 then store s1 @ [[]] else store s1) (target l2 s1) (line_key l2) (new_value l2 s1)"
    "dict_get (store s2 ! target l2 s1) (line_key l2) = Some (new_value l2 s1)"
    by auto
  have e2: "store s2 ! length (store s) = []" if v: "line_value l = ''{}''"
  proof -
    have "allocates l" using v by (simp add: allocates_def)
    hence len: "length (store s) < length (store s1)" by (simp add: s1(2))
    have "store s2 ! length (store s) = (if allocates l2 then store s1 @ [[]] else store s1) ! length (store s)"
      using p by (simp add: s2(2) t2 store_set_other)
    also have "\<dots> = store s1 ! length (store s)" using len by (simp add: nth_append)
    finally show ?thesis using e1[OF v] by simp
  qed
  have a: "dict_get (store s1 ! target l s) (line_key l)
       = Some (if line_value l = ''[]'' then PList else PDict (length (store s)))"
    using s1(4) by (simp add: nv)
  have b: "dict_get (store s2 ! target l s) (line_key l2) = Some (new_value l2 s1)"
    using s2(3) by (simp add: t2)
  show ?thesis
    using s(1) s1(1) s2(1) s1(3) a e1 k2 t2 b e2 by blast
qed

theorem empty_container_tokens_witness:
  "\<not> line_skipped ''data: {}'' \<and> line_value ''data: {}'' = ''{}'' \<and>
   \<not> line_skipped ''data: []'' \<and> line_value ''data: []'' = ''[]'' \<and>
   \<not> line_skipped ''  x: 1'' \<and> line_indent ''data: {}'' < line_indent ''  x: 1'' \<and>
   (\<exists>s1 s2. parse_line ''data: {}'' initial = Inr s1 \<and> parse_line ''  x: 1'' s1 = Inr s2 \<and>
       stack s1 = [(- 1, 0)] \<and> target ''  x: 1'' s1 = 0 \<and>
       dict_get (store s2 ! 0) ''x'' = Some (PStr ''1'') \<and> store s2 ! 1 = []) \<and>
   parse_yaml [''data: {}'', ''  x: 1''] = Inr [(''data'', YDict []), (''x'', YStr ''1'')] \<and>
   parse_yaml [''data: []'', ''  x: 1''] = Inr [(''data'', YList []), (''x'', YStr ''1'')] \<and>
   parse_yaml [''data:'', ''  x: 1''] = Inr [(''data'', YDict [(''x'', YStr ''1'')])]"
proof -
  let ?l = "''data: {}''" let ?m = "''  x: 1''"
  have r: "\<not> line_skipped ?l" by code_simp
  have v: "line_value ?l = ''{}''" by code_simp
  have r': "\<not> line_skipped ''data: []''" by code_simp
  have v': "line_value ''data: []'' = ''[]''" by code_simp
  have r2: "\<not> line_skipped ?m" by code_simp
  have i: "line_indent ?l < line_indent ?m" by code_simp
  have k2: "line_key ?m = ''x''" by code_simp
  have p0: "parse_lines [] initial = Inr initial" by simp
  have f0: "frames_kept ?l initial = [(- 1, 0)]" by (rule frames_kept_initial)
  have t0: "target ?l initial = 0" by (simp add: target_def f0)
  have l0: "length (store initial) = 1" by (simp add: initial_def)
  have y1: "parse_yaml [?l, ?m] = Inr [(''data'', YDict []), (''x'', YStr ''1'')]" by code_simp
  have y2: "parse_yaml [''data: []'', ?m] = Inr [(''data'', YList []), (''x'', YStr ''1'')]" by code_simp
  have y3: "parse_yaml [''data:'', ?m] = Inr [(''data'', YDict [(''x'', YStr ''1'')])]" by code_simp
  from empty_container_tokens[OF r _ r2 i, of "[]"] v
  obtain s s1 s2 where h: "parse_lines [] initial = Inr s" "parse_line ?l s = Inr s1"
    "parse_line ?m s1 = Inr s2" "stack s1 = frames_kept ?l s" "target ?m s1 = target ?l s"
    "dict_get (store s2 ! target ?l s) (line_key ?m) = Some (new_value ?m s1)"
    "store s2 ! length (store s) = []"
    by auto
  have s: "s = initial" using h(1) by simp
  have nv: "new_value ?m s1 = PStr ''1''" unfolding new_value_def by code_simp
  have "\<exists>s1 s2. parse_line ?l initial = Inr s1 \<and> parse_line ?m s1 = Inr s2 \<and>
       stack s1 = [(- 1, 0)] \<and> target ?m s1 = 0 \<and>
       dict_get (store s2 ! 0) ''x'' = Some (PStr ''1'') \<and> store s2 ! 1 = []"
    using h(2-7) unfolding s f0 t0 l0 k2 nv by blast
  thus ?thesis using r v r' v' r2 i y1 y2 y3 by blast
qed




section \<open>The report\<close>



section \<open>End-to-end behaviour\<close>

text \<open>
  C8. The end-to-end scenario: for the eight lines of the example, parsing followed by
  reporting prints exactly the ingress line, the Postgres line and the SMTP line, in
  that order, and neither a JWT nor a Grafana line; no exception is raised.
\<close>

theorem end_to_end_scenario:
  "main limit (Inr [''ingress:'',
              ''  host: dev.local'',
              ''postgres:'',
              ''  username: admin'',
              ''  password: s3cr3t'',
              ''secrets:'',
              ''  data:'',
              ''    SMTP_URL: smtp://localhost:1025''])
   = ([''Ingress URL: http://dev.local:8080'',
       ''Postgres credentials: admin/s3cr3t'',
       ''SMTP URL: smtp://localhost:1025''], None)"
  by code_simp

text \<open>
  C9. When reading the configuration file raises \<^verbatim>\<open>FileNotFoundError\<close>, \<^verbatim>\<open>main\<close> returns
  normally and has printed nothing; the parser and the lookups are not reached.
\<close>

theorem missing_source_prints_nothing:
  "main limit (Inl FileNotFoundError) = ([], None)"
  by (simp add: main_def)

end
